theory Spec2Isabelle
  imports Main "HOL-Library.Word"
begin

section \<open>The worker pool of libfive (render/brep/worker_pool.cpp)\<close>

text \<open>
  \<^verbatim>\<open>WorkerPool<T, Neighbors, N>\<close> is a template: the cell type \<open>T\<close> (with its methods
  \<open>evalInterval\<close>, \<open>evalLeaf\<close>, \<open>collectChildren\<close> and its object pool), the neighbour
  descriptor, the region arithmetic, the tape and the lock-free stack are not part of
  \<^verbatim>\<open>worker_pool.cpp\<close>. They are the fields of the record \<open>Env\<close> below; the two functions
  \<open>build\<close> and \<open>run\<close> of the file are translated statement by statement.

  One pass through the body of the \<^verbatim>\<open>while\<close> loop of \<open>run\<close> is one function call
  (\<open>run_iter\<close>); threads are interleaved at that granularity by a schedule, a list of
  events naming which worker takes its next pass, or that the caller sets \<open>cancel\<close>.
\<close>

subsection \<open>Data\<close>

datatype Interval = EMPTY | FILLED | AMBIGUOUS | UNKNOWN

record 'b Region =
  level :: int
  bounds :: 'b

type_synonym addr = nat

text \<open>
  A cell of type \<open>T\<close>. \<open>worker_pool.cpp\<close> reads \<open>parent\<close>, \<open>parent_index\<close>,
  \<open>children\<close> and \<open>type\<close>; everything else \<open>T\<close> keeps (leaf, pending counter, ...)
  is the field \<open>data\<close>. A pointer is an index into the list of all cells; \<open>nullptr\<close>
  is \<open>None\<close>.
\<close>

record ('b, 'd) Cell =
  parent :: "addr option"
  parent_index :: nat
  cell_region :: "'b Region"
  type :: Interval
  children :: "addr option list"
  data :: 'd

record ('b, 't, 'n) Task =
  target :: "addr option"
  tape :: 't
  region :: "'b Region"
  parent_neighbors :: 'n

datatype Status = Running | Finished

record ('b, 't, 'n) Worker =
  local :: "('b, 't, 'n) Task list"
  object_pool :: "addr list"
  status :: Status

record Root =
  ptr :: "addr option"
  claimed :: "addr list"

text \<open>
  The variables that \<open>build\<close> keeps on its stack and passes by reference to every
  \<open>run\<close>, together with the state local to each \<open>run\<close>. \<open>ticked\<close> lists the
  arguments of the calls of \<open>progress->tick\<close>, oldest first; \<open>offers\<close> counts the calls of
  \<open>free_thread_handler->offerWait()\<close>.
\<close>

record ('b, 't, 'n, 'd) State =
  "done" :: bool
  cancel :: bool
  tasks :: "('b, 't, 'n) Task list"
  tasks_capacity :: nat
  heap :: "('b, 'd) Cell list"
  ticked :: "64 word list"
  out :: Root
  workers :: "('b, 't, 'n) Worker list"
  offers :: nat

text \<open>
  The template parameters and collaborators, none of them in the file; \<open>N\<close> is the
  dimension. The first argument of a method of \<open>T\<close> is the index \<open>i\<close> of the
  evaluator \<open>eval + i\<close>.

  Modelled from the spec: the methods of \<open>T\<close> are missing. Each acts on the cell it
  is called on. \<open>evalInterval\<close> sets the type of the cell and returns a tape: it gives
  the new \<open>type\<close>, the new \<open>data\<close> and the tape. \<open>evalLeaf\<close> populates the leaf of the
  cell, on which it is called without \<^verbatim>\<open>const\<close>: it gives the new \<open>type\<close> and the new
  \<open>data\<close>. \<open>collectChildren\<close> reads the cells
  and gives its boolean result and the new \<open>data\<close> of the cell. \<open>stack_capacity\<close> is
  the capacity of the stack made for a number of workers.
\<close>

record ('b, 't, 'n, 'd, 'f) Env =
  N :: nat
  withResolution :: "'b Region \<Rightarrow> 'f \<Rightarrow> 'b Region"
  subdivide_bounds :: "'b \<Rightarrow> nat \<Rightarrow> 'b"
  parent_bounds :: "'b \<Rightarrow> nat \<Rightarrow> 'b"
  deck_tape :: 't
  getBase :: "'t \<Rightarrow> 'b Region \<Rightarrow> 't"
  Neighbors_new :: 'n
  Neighbors_push :: "'n \<Rightarrow> nat \<Rightarrow> addr option list \<Rightarrow> 'n"
  new_data :: 'd
  evalInterval :: "nat \<Rightarrow> ('b, 'd) Cell \<Rightarrow> 't \<Rightarrow> 'b Region \<Rightarrow> Interval \<times> 'd \<times> 't"
  evalLeaf :: "nat \<Rightarrow> ('b, 'd) Cell \<Rightarrow> 't \<Rightarrow> 'b Region \<Rightarrow> 'n \<Rightarrow> Interval \<times> 'd"
  collectChildren ::
    "nat \<Rightarrow> ('b, 'd) Cell list \<Rightarrow> addr \<Rightarrow> 't \<Rightarrow> 'b Region \<Rightarrow> 'f \<Rightarrow> bool \<times> 'd"
  stack_capacity :: "nat \<Rightarrow> nat"

datatype error = AssertionFailed

datatype event = Iter nat | SetCancel

subsection \<open>Collaborators that are not in the file\<close>

text \<open>
  Modelled from the spec: \<open>Region<N>::subdivide\<close> and \<open>Region<N>::parent\<close> are missing.
  \<open>subdivide\<close> gives the \<open>2 ^ N\<close> children (eight for \<open>N = 3\<close>), each one level below
  the region; \<open>parent\<close> gives the enclosing region, one level above. What happens to
  the bounds is left to \<open>subdivide_bounds\<close> and \<open>parent_bounds\<close>.
\<close>

definition subdivide ::
  "('b, 't, 'n, 'd, 'f) Env \<Rightarrow> 'b Region \<Rightarrow> 'b Region list" where
  "subdivide env r =
     map (\<lambda>i. \<lparr>level = level r - 1, bounds = subdivide_bounds env (bounds r) i\<rparr>)
       [0 ..< 2 ^ N env]"

definition Region_parent ::
  "('b, 't, 'n, 'd, 'f) Env \<Rightarrow> 'b Region \<Rightarrow> nat \<Rightarrow> 'b Region" where
  "Region_parent env r i =
     \<lparr>level = level r + 1, bounds = parent_bounds env (bounds r) i\<rparr>"

text \<open>
  Modelled from the spec: the constructor of \<open>T\<close> and \<open>T::Pool::get\<close> are missing. A
  cell is created with type \<open>UNKNOWN\<close> and no children; a child taken from the pool is
  recorded in the \<open>children\<close> of its parent.
\<close>

definition new_cell ::
  "('b, 't, 'n, 'd, 'f) Env \<Rightarrow> addr option \<Rightarrow> nat \<Rightarrow> 'b Region \<Rightarrow> ('b, 'd) Cell" where
  "new_cell env p i r =
     \<lparr>parent = p, parent_index = i, cell_region = r, type = UNKNOWN,
      children = replicate (2 ^ N env) None, data = new_data env\<rparr>"

definition pool_get ::
  "('b, 't, 'n, 'd, 'f) Env \<Rightarrow> ('b, 'd) Cell list \<Rightarrow> addr \<Rightarrow> nat \<Rightarrow> 'b Region
     \<Rightarrow> ('b, 'd) Cell list" where
  "pool_get env h t i r =
     h[t := (h ! t)\<lparr>children := (children (h ! t))[i := Some (length h)]\<rparr>]
       @ [new_cell env (Some t) i r]"

text \<open>
  Modelled from the spec: \<open>LockFreeStack\<close> is missing. \<open>bounded_push\<close> fails when the
  stack holds as many tasks as its capacity; the head of the list is the top.
\<close>

definition bounded_push ::
  "nat \<Rightarrow> ('b, 't, 'n) Task \<Rightarrow> ('b, 't, 'n) Task list \<Rightarrow> bool \<times> ('b, 't, 'n) Task list" where
  "bounded_push cap x ts = (if length ts < cap then (True, x # ts) else (False, ts))"

subsection \<open>The progress budget (lines 59-62 and 197-200)\<close>

text \<open>
  \<^verbatim>\<open>uint64_t ticks = 0;
  for (int i=0; i <= region.level; ++i) { ticks = (ticks + 1) * (1 << N); }\<close>
  The arithmetic is that of \<open>uint64_t\<close>; \<open>1 << N\<close> is an \<open>int\<close>, which for the
  dimensions in use (2 and 3) is \<open>2 ^ N\<close>.
\<close>

function ticks_loop :: "nat \<Rightarrow> int \<Rightarrow> int \<Rightarrow> 64 word \<Rightarrow> 64 word" where
  "ticks_loop n lvl i ticks =
     (if i \<le> lvl then ticks_loop n lvl (i + 1) ((ticks + 1) * 2 ^ n) else ticks)"
  by pat_completeness auto
termination
  by (relation "measure (\<lambda>(n, lvl, i, ticks). nat (lvl + 1 - i))") auto

declare ticks_loop.simps [simp del]

definition region_ticks :: "('b, 't, 'n, 'd, 'f) Env \<Rightarrow> 'b Region \<Rightarrow> 64 word" where
  "region_ticks env r = ticks_loop (N env) (level r) 0 0"

definition build_ticks ::
  "('b, 't, 'n, 'd, 'f) Env \<Rightarrow> 'b Region \<Rightarrow> 'f \<Rightarrow> 64 word" where
  "build_ticks env region0 min_feature =
     region_ticks env (withResolution env region0 min_feature)"

text \<open>The recurrence in the words of the specification, over the natural numbers.\<close>

fun spec_ticks :: "nat \<Rightarrow> nat \<Rightarrow> nat" where
  "spec_ticks n 0 = 0"
| "spec_ticks n (Suc i) = (spec_ticks n i + 1) * 2 ^ n"

subsection \<open>One pass through the loop of \<open>run\<close>\<close>

text \<open>Lines 115-124: a local task first, else the shared stack.\<close>

definition pop_task ::
  "('b, 't, 'n) Task list \<Rightarrow> ('b, 't, 'n) Task list
     \<Rightarrow> ('b, 't, 'n) Task option \<times> ('b, 't, 'n) Task list \<times> ('b, 't, 'n) Task list" where
  "pop_task loc ts =
     (case loc of
        x # xs \<Rightarrow> (Some x, xs, ts)
      | [] \<Rightarrow> (case ts of [] \<Rightarrow> (None, [], []) | y # ys \<Rightarrow> (Some y, [], ys)))"

text \<open>Lines 142-147.\<close>

definition find_neighbors ::
  "('b, 't, 'n, 'd, 'f) Env \<Rightarrow> ('b, 'd) Cell list \<Rightarrow> addr \<Rightarrow> 'n \<Rightarrow> 'n" where
  "find_neighbors env h t pn =
     (case parent (h ! t) of
        Some p \<Rightarrow> Neighbors_push env pn (parent_index (h ! t)) (children (h ! p))
      | None \<Rightarrow> Neighbors_new env)"

text \<open>
  Lines 163-174, the loop over \<open>i < t->children.size()\<close>; the size of the
  \<open>std::array\<close> is \<open>1 << N\<close>. The fourth argument counts the passes still to make.
\<close>

fun push_children ::
  "('b, 't, 'n, 'd, 'f) Env \<Rightarrow> addr \<Rightarrow> 't \<Rightarrow> 'b Region list \<Rightarrow> 'n \<Rightarrow> nat \<Rightarrow> nat \<Rightarrow> nat
     \<Rightarrow> ('b, 'd) Cell list \<times> ('b, 't, 'n) Task list \<times> ('b, 't, 'n) Task list \<times> addr list
     \<Rightarrow> ('b, 'd) Cell list \<times> ('b, 't, 'n) Task list \<times> ('b, 't, 'n) Task list \<times> addr list"
  where
  "push_children env t tp rs nb cap i 0 st = st"
| "push_children env t tp rs nb cap i (Suc k) (h, ts, loc, pool) =
     (let next_tree = length h;
          h' = pool_get env h t i (rs ! i);
          next = \<lparr>target = Some next_tree, tape = tp, region = rs ! i, parent_neighbors = nb\<rparr>
      in case bounded_push cap next ts of
           (True, ts') \<Rightarrow>
             push_children env t tp rs nb cap (Suc i) k (h', ts', loc, pool @ [next_tree])
         | (False, ts') \<Rightarrow>
             push_children env t tp rs nb cap (Suc i) k (h', ts', next # loc, pool @ [next_tree]))"

text \<open>Lines 190-207; \<open>progress\<close> tells whether the pointer is non-null.\<close>

definition progress_tick ::
  "('b, 't, 'n, 'd, 'f) Env \<Rightarrow> bool \<Rightarrow> bool \<Rightarrow> 'b Region \<Rightarrow> 64 word list \<Rightarrow> 64 word list" where
  "progress_tick env progress can_subdivide r tk =
     (if progress then
        (if can_subdivide then tk @ [region_ticks env r] else tk @ [1])
      else tk)"

text \<open>Lines 212-216, the lambda \<open>up\<close>.\<close>

definition up ::
  "('b, 't, 'n, 'd, 'f) Env \<Rightarrow> ('b, 'd) Cell list \<Rightarrow> addr \<Rightarrow> 't \<Rightarrow> 'b Region
     \<Rightarrow> addr option \<times> 't \<times> 'b Region" where
  "up env h t tp r =
     (let r' = Region_parent env r (parent_index (h ! t));
          tp' = getBase env tp r'
      in (parent (h ! t), tp', r'))"

text \<open>
  Lines 218-227. The condition of the \<^verbatim>\<open>while\<close> calls \<open>collectChildren\<close>, which may
  change the cell. \<open>progress->tick()\<close> is a tick of one. Nothing bounds the walk
  if the parent pointers form a cycle, so that not returning is \<open>None\<close>.
\<close>

partial_function (option) collect_loop ::
  "('b, 't, 'n, 'd, 'f) Env \<Rightarrow> nat \<Rightarrow> 'f \<Rightarrow> bool \<Rightarrow> ('b, 'd) Cell list \<Rightarrow> 64 word list
     \<Rightarrow> addr option \<Rightarrow> 't \<Rightarrow> 'b Region
     \<Rightarrow> (('b, 'd) Cell list \<times> 64 word list \<times> addr option \<times> 't \<times> 'b Region) option" where
  "collect_loop env i max_err progress h tk t tp r =
     (case t of
        None \<Rightarrow> Some (h, tk, None, tp, r)
      | Some a \<Rightarrow>
          (case collectChildren env i h a tp r max_err of
             (ok, d) \<Rightarrow>
               if ok then
                 (case up env (h[a := (h ! a)\<lparr>data := d\<rparr>]) a tp r of
                    (t', tp', r') \<Rightarrow>
                      collect_loop env i max_err progress (h[a := (h ! a)\<lparr>data := d\<rparr>])
                        (if progress then tk @ [1] else tk) t' tp' r')
               else Some (h[a := (h ! a)\<lparr>data := d\<rparr>], tk, Some a, tp, r)))"

text \<open>Lines 237-244: after the loop.\<close>

definition exit_run ::
  "nat \<Rightarrow> ('b, 't, 'n, 'd) State \<Rightarrow> ('b, 't, 'n, 'd) State" where
  "exit_run i s =
     s\<lparr>done := True,
       out := (out s)\<lparr>claimed := claimed (out s) @ object_pool (workers s ! i)\<rparr>,
       workers := (workers s)[i := (workers s ! i)\<lparr>object_pool := [], status := Finished\<rparr>]\<rparr>"

text \<open>
  Lines 190-235 for the cell \<open>t\<close>, once it has been evaluated: the tick, the walk up,
  and the \<^verbatim>\<open>break\<close> when the walk has passed the root.
\<close>

definition finish_cell ::
  "('b, 't, 'n, 'd, 'f) Env \<Rightarrow> 'f \<Rightarrow> bool \<Rightarrow> nat \<Rightarrow> bool \<Rightarrow> addr \<Rightarrow> 't \<Rightarrow> 'b Region
     \<Rightarrow> ('b, 't, 'n, 'd) State \<Rightarrow> (error + ('b, 't, 'n, 'd) State) option" where
  "finish_cell env max_err progress i can_subdivide t tp r s =
     (case up env (heap s) t tp r of
        (t1, tp1, r1) \<Rightarrow>
          (case collect_loop env i max_err progress (heap s)
                  (progress_tick env progress can_subdivide r (ticked s)) t1 tp1 r1 of
             None \<Rightarrow> None
           | Some (h', tk', t', tp', r') \<Rightarrow>
               (let s' = s\<lparr>heap := h', ticked := tk'\<rparr>
                in if t' = None then Some (Inr (exit_run i s')) else Some (Inr s'))))"

definition offer_wait ::
  "bool \<Rightarrow> ('b, 't, 'n, 'd) State \<Rightarrow> ('b, 't, 'n, 'd) State" where
  "offer_wait free_thread_handler s =
     (if free_thread_handler then s\<lparr>offers := offers s + 1\<rparr> else s)"

definition set_local ::
  "nat \<Rightarrow> ('b, 't, 'n) Task list \<Rightarrow> ('b, 't, 'n, 'd) State \<Rightarrow> ('b, 't, 'n, 'd) State" where
  "set_local i loc s = s\<lparr>workers := (workers s)[i := (workers s ! i)\<lparr>local := loc\<rparr>]\<rparr>"

text \<open>
  Lines 136-188 for a task with a target, then \<open>finish_cell\<close>. The assertion of line 159
  is checked.
\<close>

definition run_task ::
  "('b, 't, 'n, 'd, 'f) Env \<Rightarrow> 'f \<Rightarrow> bool \<Rightarrow> nat \<Rightarrow> ('b, 't, 'n) Task \<Rightarrow> addr
     \<Rightarrow> ('b, 't, 'n, 'd) State \<Rightarrow> (error + ('b, 't, 'n, 'd) State) option" where
  "run_task env max_err progress i task t s =
     (let neighbors = find_neighbors env (heap s) t (parent_neighbors task);
          can_subdivide = (level (region task) > 0)
      in if can_subdivide then
           (case evalInterval env i (heap s ! t) (tape task) (region task) of
              (ty, d, tp) \<Rightarrow>
                (let s1 = s\<lparr>heap := (heap s)[t := (heap s ! t)\<lparr>type := ty, data := d\<rparr>]\<rparr>
                 in if ty = UNKNOWN then Some (Inl AssertionFailed)
                    else if ty = AMBIGUOUS then
                      (case push_children env t tp (subdivide env (region task)) neighbors
                              (tasks_capacity s1) 0 (2 ^ N env)
                              (heap s1, tasks s1, local (workers s1 ! i),
                               object_pool (workers s1 ! i)) of
                         (h', ts', loc', pool') \<Rightarrow>
                           Some (Inr (s1\<lparr>heap := h', tasks := ts',
                             workers := (workers s1)[i := (workers s1 ! i)
                               \<lparr>local := loc', object_pool := pool'\<rparr>]\<rparr>)))
                    else finish_cell env max_err progress i can_subdivide t tp (region task) s1))
         else
           (case evalLeaf env i (heap s ! t) (tape task) (region task) neighbors of
              (ty, d) \<Rightarrow>
                (let s1 = s\<lparr>heap := (heap s)[t := (heap s ! t)\<lparr>type := ty, data := d\<rparr>]\<rparr>
                 in finish_cell env max_err progress i can_subdivide t (tape task)
                      (region task) s1)))"

text \<open>
  Lines 110-245 for worker \<open>i\<close>: the test of the loop, one pass through its body, and the
  code after the loop when the test fails or the body breaks. A worker that has
  returned does nothing.
\<close>

definition run_iter ::
  "('b, 't, 'n, 'd, 'f) Env \<Rightarrow> 'f \<Rightarrow> bool \<Rightarrow> bool \<Rightarrow> nat
     \<Rightarrow> ('b, 't, 'n, 'd) State \<Rightarrow> (error + ('b, 't, 'n, 'd) State) option" where
  "run_iter env max_err progress free_thread_handler i s =
     (if status (workers s ! i) = Finished then Some (Inr s)
      else if done s \<or> cancel s then Some (Inr (exit_run i s))
      else
        (case pop_task (local (workers s ! i)) (tasks s) of
           (None, loc, ts) \<Rightarrow> Some (Inr (offer_wait free_thread_handler s))
         | (Some task, loc, ts) \<Rightarrow>
             (let s0 = set_local i loc (s\<lparr>tasks := ts\<rparr>)
              in case target task of
                   None \<Rightarrow> Some (Inr (offer_wait free_thread_handler s0))
                 | Some t \<Rightarrow> run_task env max_err progress i task t s0)))"

subsection \<open>\<open>build\<close>\<close>

fun step ::
  "('b, 't, 'n, 'd, 'f) Env \<Rightarrow> 'f \<Rightarrow> bool \<Rightarrow> bool \<Rightarrow> event
     \<Rightarrow> ('b, 't, 'n, 'd) State \<Rightarrow> (error + ('b, 't, 'n, 'd) State) option" where
  "step env max_err progress fth (Iter i) s =
     (if i < length (workers s) then run_iter env max_err progress fth i s else Some (Inr s))"
| "step env max_err progress fth SetCancel s = Some (Inr (s\<lparr>cancel := True\<rparr>))"

fun exec ::
  "('b, 't, 'n, 'd, 'f) Env \<Rightarrow> 'f \<Rightarrow> bool \<Rightarrow> bool \<Rightarrow> event list
     \<Rightarrow> ('b, 't, 'n, 'd) State \<Rightarrow> (error + ('b, 't, 'n, 'd) State) option" where
  "exec env max_err progress fth [] s = Some (Inr s)"
| "exec env max_err progress fth (e # es) s =
     (case step env max_err progress fth e s of
        None \<Rightarrow> None
      | Some (Inl err) \<Rightarrow> Some (Inl err)
      | Some (Inr s') \<Rightarrow> exec env max_err progress fth es s')"

text \<open>Lines 44-56: the state when the workers are started.\<close>

definition init ::
  "('b, 't, 'n, 'd, 'f) Env \<Rightarrow> 'b Region \<Rightarrow> 'f \<Rightarrow> nat \<Rightarrow> bool \<Rightarrow> ('b, 't, 'n, 'd) State" where
  "init env region0 min_feature nworkers cancel0 =
     (let r = withResolution env region0 min_feature
      in \<lparr>done = False, cancel = cancel0,
          tasks = [\<lparr>target = Some 0, tape = deck_tape env, region = r,
                    parent_neighbors = Neighbors_new env\<rparr>],
          tasks_capacity = stack_capacity env nworkers,
          heap = [new_cell env None 0 r],
          ticked = [],
          out = \<lparr>ptr = Some 0, claimed = []\<rparr>,
          workers = replicate nworkers \<lparr>local = [], object_pool = [], status = Running\<rparr>,
          offers = 0\<rparr>)"

text \<open>
  What \<open>build\<close> hands back: the \<open>Root\<close>, the total it gave to the progress watcher, and
  the state the workers left (the cells the \<open>Root\<close> points into, the ticks made).
\<close>

record ('b, 't, 'n, 'd) Built =
  result :: Root
  total :: "64 word"
  final :: "('b, 't, 'n, 'd) State"

definition empty_Root :: Root where
  "empty_Root = \<lparr>ptr = None, claimed = []\<rparr>"

text \<open>
  Lines 36-95. The schedule \<open>sched\<close> says in which order the workers take their passes
  and when the caller sets \<open>cancel\<close>; \<open>cancel0\<close> is the value of the flag at the call.
  \<open>None\<close>: \<open>build\<close> has not returned, because a pass did not return or a future is not
  ready when the schedule ends. The assertion of line 82 is checked.
\<close>

definition build ::
  "('b, 't, 'n, 'd, 'f) Env \<Rightarrow> 'b Region \<Rightarrow> 'f \<Rightarrow> 'f \<Rightarrow> nat \<Rightarrow> bool \<Rightarrow> bool \<Rightarrow> bool
     \<Rightarrow> event list \<Rightarrow> (error + ('b, 't, 'n, 'd) Built) option" where
  "build env region0 min_feature max_err nworkers cancel0 progress fth sched =
     (case exec env max_err progress fth sched
             (init env region0 min_feature nworkers cancel0) of
        None \<Rightarrow> None
      | Some (Inl err) \<Rightarrow> Some (Inl err)
      | Some (Inr s) \<Rightarrow>
          if list_ex (\<lambda>w. status w = Running) (workers s) then None
          else if \<not> (done s \<or> cancel s) then Some (Inl AssertionFailed)
          else Some (Inr \<lparr>result = (if cancel s then empty_Root else out s),
                          total = build_ticks env region0 min_feature,
                          final = s\<rparr>))"

text \<open>
  Lines 17-34, the overload that makes its own evaluators and its own \<open>cancel\<close>. The
  flag is a local variable, so that the schedule holds passes of workers only.
\<close>

definition build_tree ::
  "('b, 't, 'n, 'd, 'f) Env \<Rightarrow> 'b Region \<Rightarrow> 'f \<Rightarrow> 'f \<Rightarrow> nat \<Rightarrow> bool \<Rightarrow> bool
     \<Rightarrow> nat list \<Rightarrow> (error + ('b, 't, 'n, 'd) Built) option" where
  "build_tree env region0 min_feature max_err nworkers progress fth sched =
     build env region0 min_feature max_err nworkers False progress fth (map Iter sched)"

declare collect_loop.simps [code]

subsection \<open>The contracts of the methods of \<open>T\<close>\<close>



subsection \<open>An environment to run the model on\<close>

text \<open>
  Three dimensions; the bounds of a region are the child indices that lead to it from
  the root. A region is ambiguous when all these indices are 0 and empty otherwise;
  a leaf is filled.
  \<open>withResolution\<close> takes the level from its argument. The \<open>data\<close> of a cell counts
  the children that have not yet reported: \<open>collectChildren\<close> takes one off and
  succeeds on reaching zero. The stack holds as many tasks as there are workers.
\<close>

fun demo_classify :: "nat list \<Rightarrow> Interval" where
  "demo_classify [] = AMBIGUOUS"
| "demo_classify (i # p) = (if i = 0 then demo_classify p else EMPTY)"

definition demo_env :: "(nat list, nat, nat list, nat, nat) Env" where
  "demo_env =
     \<lparr>N = 3,
      withResolution = (\<lambda>r min_feature. r\<lparr>level := int min_feature\<rparr>),
      subdivide_bounds = (\<lambda>b i. b @ [i]),
      parent_bounds = (\<lambda>b i. butlast b),
      deck_tape = 0,
      getBase = (\<lambda>tp r. 0),
      Neighbors_new = [],
      Neighbors_push = (\<lambda>n i ch. i # n),
      new_data = 8,
      evalInterval = (\<lambda>i c tp r. (demo_classify (bounds r), data c, Suc tp)),
      evalLeaf = (\<lambda>i c tp r n. (FILLED, data c)),
      collectChildren = (\<lambda>i h a tp r err. (data (h ! a) = 1, data (h ! a) - 1)),
      stack_capacity = (\<lambda>w. w)\<rparr>"

definition demo_region :: "nat list Region" where
  "demo_region = \<lparr>level = 0, bounds = []\<rparr>"

text \<open>
  The root task of a build whose root region has the given level, and the state of a
  build with one worker once that worker has popped the root task.
\<close>

definition demo_root_task :: "int \<Rightarrow> (nat list, nat, nat list) Task" where
  "demo_root_task l =
     \<lparr>target = Some 0, tape = 0, region = \<lparr>level = l, bounds = []\<rparr>, parent_neighbors = []\<rparr>"

definition demo_popped :: "nat \<Rightarrow> (nat list, nat, nat list, nat) State" where
  "demo_popped l = (init demo_env demo_region l 1 False)\<lparr>tasks := []\<rparr>"


text \<open>The sum of the ticks a build has made, and the total it announced.\<close>

definition emitted_and_total ::
  "(error + ('b, 't, 'n, 'd) Built) option \<Rightarrow> (64 word \<times> 64 word) option" where
  "emitted_and_total r =
     (case r of Some (Inr b) \<Rightarrow> Some (sum_list (ticked (final b)), total b) | _ \<Rightarrow> None)"

subsection \<open>Invariants of a build\<close>

text \<open>A worker has returned only if \<open>done\<close> is set.\<close>

definition returned_done :: "('b, 't, 'n, 'd) State \<Rightarrow> bool" where
  "returned_done s = (list_ex (\<lambda>w. status w = Finished) (workers s) \<longrightarrow> done s)"

text \<open>
  The cells held by the \<open>Root\<close> and by the pools of the workers: every cell but the
  root, and a worker that has returned has handed over its pool.
\<close>

definition owned :: "('b, 't, 'n, 'd) State \<Rightarrow> addr set" where
  "owned s = set (claimed (out s))
       \<union> (\<Union>j<length (workers s). set (object_pool (workers s ! j)))"

definition all_owned :: "('b, 't, 'n, 'd) State \<Rightarrow> bool" where
  "all_owned s =
     (1 \<le> length (heap s) \<and> owned s = {1 ..< length (heap s)} \<and>
      (\<forall>j<length (workers s).
          status (workers s ! j) = Finished \<longrightarrow> object_pool (workers s ! j) = []))"

text \<open>
  A cell is subdivided when it has a child. The tasks that wait are those of the
  shared stack and of the local stacks of the workers.
\<close>

definition subdivided :: "('b, 'd) Cell \<Rightarrow> bool" where
  "subdivided c = list_ex (\<lambda>x. x \<noteq> None) (children c)"

definition pending_tasks :: "('b, 't, 'n, 'd) State \<Rightarrow> ('b, 't, 'n) Task list" where
  "pending_tasks s = tasks s @ concat (map local (workers s))"



text \<open>
  What holds between two passes, for the targets \<open>S\<close> of the tasks that wait. A cell
  is finished when no task waits for it and, if it is subdivided, its counter is at
  0. The targets are distinct cells that are not subdivided and whose counter is as
  the constructor set it. The counter of a subdivided cell is at least the number of
  its children that are not finished, and one more for the cell \<open>t\<close> that a walk up is
  about to ask. When \<open>done\<close> is set without \<open>cancel\<close>, the root is finished. The cells
  that no task waits for have a type.
\<close>

definition finished ::
  "('d \<Rightarrow> nat) \<Rightarrow> ('b, 'd) Cell list \<Rightarrow> addr option list \<Rightarrow> addr \<Rightarrow> bool" where
  "finished pending h S c =
     (Some c \<notin> set S \<and> (subdivided (h ! c) \<longrightarrow> pending (data (h ! c)) = 0))"





subsection \<open>The tree as a value\<close>









definition addrs :: "addr option list \<Rightarrow> addr set" where
  "addrs S = {a. Some a \<in> set S}"


section \<open>Lemmas\<close>

subsection \<open>The progress budget\<close>

lemma ticks_loop_spec:
  "0 \<le> i \<Longrightarrow> i \<le> lvl + 1 \<Longrightarrow>
   ticks_loop n lvl i (of_nat (spec_ticks n (nat i))) = of_nat (spec_ticks n (nat (lvl + 1)))"
proof (induction "nat (lvl + 1 - i)" arbitrary: i)
  case 0
  then have "i = lvl + 1" by simp
  then show ?case by (simp add: ticks_loop.simps)
next
  case (Suc k)
  then have le: "i \<le> lvl" by linarith
  have k: "k = nat (lvl + 1 - (i + 1))" using Suc.hyps(2) by linarith
  have "nat (i + 1) = Suc (nat i)" using Suc.prems by simp
  then have "ticks_loop n lvl (i + 1) (of_nat (spec_ticks n (Suc (nat i))))
      = of_nat (spec_ticks n (nat (lvl + 1)))"
    using Suc.hyps(1)[OF k] Suc.prems le by simp
  then show ?case using le by (subst ticks_loop.simps) (simp add: algebra_simps)
qed

lemma region_ticks_spec:
  "0 \<le> level r \<Longrightarrow>
   region_ticks env r = of_nat (spec_ticks (N env) (Suc (nat (level r))))"
  using ticks_loop_spec[of 0 "level r" "N env"]
  by (simp add: region_ticks_def nat_add_distrib)

lemma region_ticks_all_levels:
  "region_ticks env r = of_nat (spec_ticks (N env) (nat (level r + 1)))"
proof (cases "0 \<le> level r")
  case True
  then show ?thesis by (simp add: region_ticks_spec nat_add_distrib)
next
  case False
  then show ?thesis by (simp add: region_ticks_def ticks_loop.simps)
qed

subsection \<open>Lists of workers\<close>

lemma nth_update_same_field:
  assumes "\<And>w. f (g w) = f w"
  shows "f (ws[i := g (ws ! i)] ! j) = f (ws ! j)"
proof (cases "i < length ws")
  case True
  then show ?thesis using assms by (cases "i = j") simp_all
next
  case False
  then show ?thesis by (simp add: list_update_beyond)
qed

lemma status_update [simp]:
  "status (ws[i := (ws ! i)\<lparr>local := l\<rparr>] ! j) = status (ws ! j)"
  "status (ws[i := (ws ! i)\<lparr>local := l, object_pool := p\<rparr>] ! j) = status (ws ! j)"
  by (rule nth_update_same_field[where f = status and g = "\<lambda>w. w\<lparr>local := l\<rparr>"], simp)
     (rule nth_update_same_field[where f = status and g = "\<lambda>w. w\<lparr>local := l, object_pool := p\<rparr>"], simp)

subsection \<open>Pushing the children\<close>

lemma pool_get_length [simp]: "length (pool_get env h t i r) = Suc (length h)"
  by (simp add: pool_get_def)

lemma pool_get_old: "a < length h \<Longrightarrow> a \<noteq> t \<Longrightarrow> pool_get env h t i r ! a = h ! a"
  by (simp add: pool_get_def nth_append)

lemma pool_get_new [simp]: "pool_get env h t i r ! length h = new_cell env (Some t) i r"
  by (simp add: pool_get_def nth_append)

lemma pool_get_target:
  "t < length h \<Longrightarrow>
   pool_get env h t i r ! t = (h ! t)\<lparr>children := (children (h ! t))[i := Some (length h)]\<rparr>"
  by (simp add: pool_get_def nth_append)

lemma push_children_Suc:
  "push_children env t tp rs nb cap i (Suc k) (h, ts, loc, pool) =
   push_children env t tp rs nb cap (Suc i) k
     (pool_get env h t i (rs ! i),
      (if length ts < cap
       then \<lparr>target = Some (length h), tape = tp, region = rs ! i, parent_neighbors = nb\<rparr> # ts
       else ts),
      (if length ts < cap then loc
       else \<lparr>target = Some (length h), tape = tp, region = rs ! i, parent_neighbors = nb\<rparr> # loc),
      pool @ [length h])"
  by (simp add: bounded_push_def Let_def)

lemma push_children_length:
  "push_children env t tp rs nb cap i k (h, ts, loc, pool) = (h', ts', loc', pool')
   \<Longrightarrow> length h' = length h + k"
proof (induction k arbitrary: i h ts loc pool)
  case 0
  then show ?case by simp
next
  case (Suc k)
  from Suc.IH[OF Suc.prems[unfolded push_children_Suc]] show ?case by simp
qed

lemma push_children_pool:
  "push_children env t tp rs nb cap i k (h, ts, loc, pool) = (h', ts', loc', pool')
   \<Longrightarrow> pool' = pool @ [length h ..< length h + k]"
proof (induction k arbitrary: i h ts loc pool)
  case 0
  then show ?case by simp
next
  case (Suc k)
  from Suc.IH[OF Suc.prems[unfolded push_children_Suc]] show ?case
    by (simp add: upt_conv_Cons)
qed

lemma push_children_old_cells:
  "push_children env t tp rs nb cap i k (h, ts, loc, pool) = (h', ts', loc', pool')
   \<Longrightarrow> a < length h \<Longrightarrow> a \<noteq> t \<Longrightarrow> h' ! a = h ! a"
proof (induction k arbitrary: i h ts loc pool)
  case 0
  then show ?case by simp
next
  case (Suc k)
  from Suc.IH[OF Suc.prems(1)[unfolded push_children_Suc]] Suc.prems(2,3) show ?case
    by (simp add: pool_get_old)
qed

lemma push_children_new_cells:
  "push_children env t tp rs nb cap i k (h, ts, loc, pool) = (h', ts', loc', pool')
   \<Longrightarrow> j < k \<Longrightarrow> t < length h
   \<Longrightarrow> h' ! (length h + j) = new_cell env (Some t) (i + j) (rs ! (i + j))"
proof (induction k arbitrary: i j h ts loc pool)
  case 0
  then show ?case by simp
next
  case (Suc k)
  note rec = Suc.prems(1)[unfolded push_children_Suc]
  show ?case
  proof (cases j)
    case 0
    have "h' ! length h = pool_get env h t i (rs ! i) ! length h"
      using push_children_old_cells[OF rec, of "length h"] Suc.prems(3) by simp
    then show ?thesis using 0 by simp
  next
    case (Suc j')
    with Suc.prems have "j' < k" by simp
    from Suc.IH[OF rec this] Suc.prems(3) Suc show ?thesis by simp
  qed
qed

lemma push_children_target:
  "push_children env t tp rs nb cap i k (h, ts, loc, pool) = (h', ts', loc', pool')
   \<Longrightarrow> t < length h
   \<Longrightarrow> h' ! t = (h ! t)\<lparr>children := children (h' ! t)\<rparr> \<and>
       length (children (h' ! t)) = length (children (h ! t)) \<and>
       (\<forall>m < length (children (h ! t)). children (h' ! t) ! m =
          (if i \<le> m \<and> m < i + k then Some (length h + (m - i)) else children (h ! t) ! m))"
proof (induction k arbitrary: i h ts loc pool)
  case 0
  then show ?case by auto
next
  case (Suc k)
  note rec = Suc.prems(1)[unfolded push_children_Suc]
  have t1: "t < length (pool_get env h t i (rs ! i))" using Suc.prems(2) by simp
  note ih = Suc.IH[OF rec t1]
  note tgt = pool_get_target[OF Suc.prems(2), of env i "rs ! i"]
  have a: "h' ! t = (h ! t)\<lparr>children := children (h' ! t)\<rparr>"
    using ih tgt by (metis Cell.surjective Cell.update_convs(5))
  have b: "length (children (h' ! t)) = length (children (h ! t))"
    using ih tgt by simp
  have c: "children (h' ! t) ! m =
          (if i \<le> m \<and> m < i + Suc k then Some (length h + (m - i)) else children (h ! t) ! m)"
    if "m < length (children (h ! t))" for m
  proof -
    from ih that tgt have "children (h' ! t) ! m =
      (if Suc i \<le> m \<and> m < Suc i + k then Some (Suc (length h) + (m - Suc i))
       else (children (h ! t))[i := Some (length h)] ! m)"
      by simp
    then show ?thesis using that by (auto simp: nth_list_update)
  qed
  from a b c show ?case by blast
qed

lemma push_children_tasks:
  "push_children env t tp rs nb cap i k (h, ts, loc, pool) = (h', ts', loc', pool')
   \<Longrightarrow> ts' = rev (take (cap - length ts)
                (map (\<lambda>j. \<lparr>target = Some (length h + j), tape = tp, region = rs ! (i + j),
                           parent_neighbors = nb\<rparr>) [0 ..< k])) @ ts \<and>
       loc' = rev (drop (cap - length ts)
                (map (\<lambda>j. \<lparr>target = Some (length h + j), tape = tp, region = rs ! (i + j),
                           parent_neighbors = nb\<rparr>) [0 ..< k])) @ loc"
proof (induction k arbitrary: i h ts loc pool)
  case 0
  then show ?case by simp
next
  case (Suc k)
  note ih = Suc.IH[OF Suc.prems(1)[unfolded push_children_Suc]]
  show ?case
  proof (cases "length ts < cap")
    case True
    then have "cap - length ts = Suc (cap - Suc (length ts))" by simp
    with ih True show ?thesis by (simp add: map_upt_Suc del: upt_Suc)
  next
    case False
    with ih show ?thesis by (simp add: map_upt_Suc del: upt_Suc)
  qed
qed

subsection \<open>The walk up\<close>

lemma collect_loop_length_aux:
  assumes "collect_loop env i max_err progress h tk t tp r = Some res"
  shows "length (fst res) = length h"
proof (rule collect_loop.raw_induct[where P = "\<lambda>env i max_err progress h tk t tp r res.
    length (fst res) = length h", OF _ assms], goal_cases)
  case (1 collect_loop' env i max_err progress h tk t tp r res)
  then show ?case
    by (auto split: option.splits prod.splits if_splits)
qed

lemma collect_loop_length:
  "collect_loop env i max_err progress h tk t tp r = Some (h', tk', t', tp', r')
   \<Longrightarrow> length h' = length h"
  by (drule collect_loop_length_aux) simp

lemma collect_loop_ticks_aux:
  assumes "collect_loop env i max_err progress h tk t tp r = Some res"
  shows "\<exists>k. fst (snd res) = tk @ (if progress then replicate k 1 else [])"
proof (rule collect_loop.raw_induct[where P = "\<lambda>env i max_err progress h tk t tp r res.
    \<exists>k. fst (snd res) = tk @ (if progress then replicate k 1 else [])", OF _ assms], goal_cases)
  case (1 collect_loop' env i max_err progress h tk t tp r res)
  show ?case
  proof (cases t)
    case None
    with 1(2) show ?thesis by auto
  next
    case (Some a)
    obtain ok d where c: "collectChildren env i h a tp r max_err = (ok, d)"
      by (cases "collectChildren env i h a tp r max_err")
    show ?thesis
    proof (cases ok)
      case False
      with 1(2) Some c show ?thesis by auto
    next
      case True
      obtain t1 tp1 r1 where u: "up env (h[a := (h ! a)\<lparr>data := d\<rparr>]) a tp r = (t1, tp1, r1)"
        by (cases "up env (h[a := (h ! a)\<lparr>data := d\<rparr>]) a tp r")
      from 1(2) Some c True u
      have "collect_loop' env i max_err progress (h[a := (h ! a)\<lparr>data := d\<rparr>])
              (if progress then tk @ [1] else tk) t1 tp1 r1 = Some res"
        by simp
      from 1(1)[OF this] obtain k where
        "fst (snd res) =
           (if progress then tk @ [1] else tk) @ (if progress then replicate k 1 else [])"
        by blast
      then have "fst (snd res) = tk @ (if progress then replicate (Suc k) 1 else [])"
        by (simp add: replicate_append_same)
      then show ?thesis by blast
    qed
  qed
qed

lemma collect_loop_ticks:
  "collect_loop env i max_err progress h tk t tp r = Some (h', tk', t', tp', r')
   \<Longrightarrow> \<exists>k. tk' = tk @ (if progress then replicate k 1 else [])"
  by (drule collect_loop_ticks_aux) simp

subsection \<open>The cases of a pass\<close>

lemma run_task_leaf:
  assumes "\<not> 0 < level (region task)"
    and "evalLeaf env i (heap s ! t) (tape task) (region task)
           (find_neighbors env (heap s) t (parent_neighbors task)) = (ty, d)"
  shows "run_task env max_err progress i task t s =
    finish_cell env max_err progress i False t (tape task) (region task)
      (s\<lparr>heap := (heap s)[t := (heap s ! t)\<lparr>type := ty, data := d\<rparr>]\<rparr>)"
  using assms by (simp add: run_task_def Let_def)

lemma run_task_unknown:
  assumes "0 < level (region task)"
    and "evalInterval env i (heap s ! t) (tape task) (region task) = (UNKNOWN, d, tp)"
  shows "run_task env max_err progress i task t s = Some (Inl AssertionFailed)"
  using assms by (simp add: run_task_def Let_def)

lemma run_task_ambiguous:
  assumes "0 < level (region task)"
    and "evalInterval env i (heap s ! t) (tape task) (region task) = (AMBIGUOUS, d, tp)"
  shows "run_task env max_err progress i task t s =
    (case push_children env t tp (subdivide env (region task))
            (find_neighbors env (heap s) t (parent_neighbors task))
            (tasks_capacity s) 0 (2 ^ N env)
            ((heap s)[t := (heap s ! t)\<lparr>type := AMBIGUOUS, data := d\<rparr>], tasks s,
             local (workers s ! i), object_pool (workers s ! i)) of
       (h', ts', loc', pool') \<Rightarrow>
         Some (Inr (s\<lparr>heap := h', tasks := ts',
           workers := (workers s)[i := (workers s ! i)
             \<lparr>local := loc', object_pool := pool'\<rparr>]\<rparr>)))"
  using assms by (simp add: run_task_def Let_def split: prod.splits)

lemma run_task_homogeneous:
  assumes "0 < level (region task)"
    and "evalInterval env i (heap s ! t) (tape task) (region task) = (ty, d, tp)"
    and "ty \<noteq> UNKNOWN" and "ty \<noteq> AMBIGUOUS"
  shows "run_task env max_err progress i task t s =
    finish_cell env max_err progress i True t tp (region task)
      (s\<lparr>heap := (heap s)[t := (heap s ! t)\<lparr>type := ty, data := d\<rparr>]\<rparr>)"
  using assms by (simp add: run_task_def Let_def)

lemma finish_cell_cases:
  assumes "finish_cell env max_err progress i cs t tp r s = Some (Inr s')"
  obtains h' tk' where "s' = exit_run i (s\<lparr>heap := h', ticked := tk'\<rparr>)"
      "length h' = length (heap s)"
  | h' tk' where "s' = s\<lparr>heap := h', ticked := tk'\<rparr>" "length h' = length (heap s)"
  using assms
  by (auto simp: finish_cell_def Let_def dest: collect_loop_length
      split: prod.splits option.splits if_splits)

lemma run_task_cases:
  assumes "run_task env max_err progress i task t s = Some (Inr s')"
  obtains (exit) h' tk' where "s' = exit_run i (s\<lparr>heap := h', ticked := tk'\<rparr>)"
      "length h' = length (heap s)"
  | (walk) h' tk' where "s' = s\<lparr>heap := h', ticked := tk'\<rparr>" "length h' = length (heap s)"
  | (push) h' ts' loc' where "s' = s\<lparr>heap := h', tasks := ts',
           workers := (workers s)[i := (workers s ! i)
             \<lparr>local := loc',
              object_pool := object_pool (workers s ! i) @ [length (heap s) ..< length h']\<rparr>]\<rparr>"
      "length (heap s) \<le> length h'"
proof (cases "0 < level (region task)")
  case False
  obtain ty d where e: "evalLeaf env i (heap s ! t) (tape task) (region task)
      (find_neighbors env (heap s) t (parent_neighbors task)) = (ty, d)"
    by (cases "evalLeaf env i (heap s ! t) (tape task) (region task)
      (find_neighbors env (heap s) t (parent_neighbors task))")
  from assms show ?thesis unfolding run_task_leaf[OF False e]
    by (elim finish_cell_cases) (auto intro: exit walk)
next
  case True
  obtain ty d tp where e: "evalInterval env i (heap s ! t) (tape task) (region task) = (ty, d, tp)"
    by (cases "evalInterval env i (heap s ! t) (tape task) (region task)")
  show ?thesis
  proof (cases "ty = UNKNOWN")
    case ty0: True
    with assms run_task_unknown[OF True e[unfolded ty0]] show ?thesis by simp
  next
    case ty1: False
    show ?thesis
    proof (cases "ty = AMBIGUOUS")
      case ty2: True
      obtain h' ts' loc' pool' where p:
        "push_children env t tp (subdivide env (region task))
            (find_neighbors env (heap s) t (parent_neighbors task))
            (tasks_capacity s) 0 (2 ^ N env)
            ((heap s)[t := (heap s ! t)\<lparr>type := AMBIGUOUS, data := d\<rparr>], tasks s,
             local (workers s ! i), object_pool (workers s ! i)) = (h', ts', loc', pool')"
        using prod_cases4 by blast
      from push_children_length[OF p] push_children_pool[OF p]
      have "length h' = length (heap s) + 2 ^ N env"
        "pool' = object_pool (workers s ! i) @ [length (heap s) ..< length h']"
        by simp_all
      with assms p show ?thesis
        unfolding run_task_ambiguous[OF True e[unfolded ty2]]
        by (intro push[where h' = h' and ts' = ts' and loc' = loc']) simp_all
    next
      case False
      from assms show ?thesis
        unfolding run_task_homogeneous[OF True e ty1 False]
        by (elim finish_cell_cases) (auto intro: exit walk)
    qed
  qed
qed

lemma run_iter_cases:
  assumes "run_iter env max_err progress fth i s = Some (Inr s')"
  obtains (finished) "status (workers s ! i) = Finished" "s' = s"
  | (exit) "status (workers s ! i) \<noteq> Finished" "done s \<or> cancel s" "s' = exit_run i s"
  | (idle) "status (workers s ! i) \<noteq> Finished" "\<not> done s" "\<not> cancel s"
      "s' = offer_wait fth s"
  | (null) loc ts where "status (workers s ! i) \<noteq> Finished" "\<not> done s" "\<not> cancel s"
      "s' = offer_wait fth (set_local i loc (s\<lparr>tasks := ts\<rparr>))"
  | (task) task t loc ts where "status (workers s ! i) \<noteq> Finished" "\<not> done s" "\<not> cancel s"
      "pop_task (local (workers s ! i)) (tasks s) = (Some task, loc, ts)"
      "target task = Some t"
      "run_task env max_err progress i task t (set_local i loc (s\<lparr>tasks := ts\<rparr>)) = Some (Inr s')"
  using assms
  by (auto simp: run_iter_def Let_def split: if_splits prod.splits option.splits)

lemma status_exit_run:
  "i < length (workers s) \<Longrightarrow>
   status (workers (exit_run i s) ! j) = (if j = i then Finished else status (workers s ! j))"
  by (simp add: exit_run_def nth_list_update)

lemma status_offer_wait [simp]: "workers (offer_wait fth s) = workers s"
  by (simp add: offer_wait_def)

lemma status_set_local [simp]:
  "status (workers (set_local i loc s) ! j) = status (workers s ! j)"
  by (simp add: set_local_def)

text \<open>What a pass leaves alone.\<close>

lemma run_task_frame:
  assumes "run_task env max_err progress i task t s = Some (Inr s')"
  shows "cancel s' = cancel s" and "done s \<longrightarrow> done s'"
    and "length (workers s') = length (workers s)"
    and "ptr (out s') = ptr (out s)"
    and "tasks_capacity s' = tasks_capacity s"
  using assms by (elim run_task_cases; simp add: exit_run_def)+

lemma run_task_status:
  assumes "run_task env max_err progress i task t s = Some (Inr s')"
    and "i < length (workers s)"
  shows "status (workers s' ! j) = status (workers s ! j) \<or>
         (j = i \<and> status (workers s' ! i) = Finished \<and> done s')"
  using assms by (elim run_task_cases) (simp_all add: status_exit_run, simp add: exit_run_def)

lemma run_iter_frame:
  assumes "run_iter env max_err progress fth i s = Some (Inr s')"
  shows "cancel s' = cancel s" and "done s \<longrightarrow> done s'"
    and "length (workers s') = length (workers s)"
    and "ptr (out s') = ptr (out s)"
    and "tasks_capacity s' = tasks_capacity s"
  using assms
  by (elim run_iter_cases;
      auto simp: exit_run_def offer_wait_def set_local_def dest: run_task_frame)+

lemma run_iter_status:
  assumes "run_iter env max_err progress fth i s = Some (Inr s')"
    and "i < length (workers s)"
  shows "status (workers s' ! j) = status (workers s ! j) \<or>
         (j = i \<and> status (workers s' ! i) = Finished \<and> done s')"
  using assms
proof (cases rule: run_iter_cases)
  case exit
  then show ?thesis using assms(2) by (simp add: status_exit_run) (simp add: exit_run_def)
next
  case (task task t loc ts)
  from run_task_status[OF task(6), of j] assms(2) show ?thesis
    by (simp add: set_local_def)
qed simp_all

lemma spec_ticks_mono: "spec_ticks n i \<le> spec_ticks n (Suc i)"
proof -
  have "spec_ticks n i * 1 \<le> (spec_ticks n i + 1) * 2 ^ n"
    by (rule mult_le_mono) simp_all
  then show ?thesis by simp
qed

lemma spec_ticks_mono': "i \<le> j \<Longrightarrow> spec_ticks n i \<le> spec_ticks n j"
  by (rule lift_Suc_mono_le[of "spec_ticks n"]) (rule spec_ticks_mono)

lemma spec_ticks_numeral:
  "spec_ticks n (numeral k) = (spec_ticks n (pred_numeral k) + 1) * 2 ^ n"
  by (simp add: numeral_eq_Suc)

lemma spec_ticks_3_21: "spec_ticks 3 21 < 2 ^ 64"
  by (simp add: spec_ticks_numeral)

text \<open>
  At level 21 the number no longer fits: the 64-bit total wraps, and stays at the
  value it has for level 20.
\<close>

lemma budget_wraps_at_level_21:
  "unat (ticks_loop 3 21 0 0) = 10540996613548315208
   \<and> spec_ticks 3 22 = 84327972908386521672"
proof -
  have "ticks_loop 3 21 0 0 = 10540996613548315208" by code_simp
  then have "unat (ticks_loop 3 21 0 0) = 10540996613548315208" by simp
  moreover have "spec_ticks 3 22 = 84327972908386521672"
    by (simp add: spec_ticks_numeral)
  ultimately show ?thesis by blast
qed

subsection \<open>Schedules\<close>

lemma run_iter_stop:
  "done s \<or> cancel s \<Longrightarrow>
   run_iter env max_err progress fth i s =
     Some (Inr (if status (workers s ! i) = Finished then s else exit_run i s))"
  by (simp add: run_iter_def)

lemma step_frame:
  assumes "step env max_err progress fth e s = Some (Inr s')"
  shows "cancel s' = (cancel s \<or> e = SetCancel)" and "done s \<longrightarrow> done s'"
    and "length (workers s') = length (workers s)"
    and "ptr (out s') = ptr (out s)"
    and "tasks_capacity s' = tasks_capacity s"
  using assms by (cases e; auto split: if_splits dest: run_iter_frame)+

lemma exec_Cons_Some:
  assumes "exec env max_err progress fth (e # es) s = Some (Inr s')"
  obtains s1 where "step env max_err progress fth e s = Some (Inr s1)"
    and "exec env max_err progress fth es s1 = Some (Inr s')"
  using assms by (auto split: option.splits sum.splits)

lemma exec_frame:
  assumes "exec env max_err progress fth es s = Some (Inr s')"
  shows "cancel s' = (cancel s \<or> SetCancel \<in> set es)
       \<and> (done s \<longrightarrow> done s')
       \<and> length (workers s') = length (workers s)
       \<and> ptr (out s') = ptr (out s)
       \<and> tasks_capacity s' = tasks_capacity s"
  using assms
proof (induction es arbitrary: s)
  case Nil
  then show ?case by simp
next
  case (Cons e es)
  from Cons.prems obtain s1 where s1: "step env max_err progress fth e s = Some (Inr s1)"
    and rest: "exec env max_err progress fth es s1 = Some (Inr s')"
    by (rule exec_Cons_Some)
  from Cons.IH[OF rest] step_frame[OF s1] show ?case by auto
qed

lemma step_returned_done:
  assumes "step env max_err progress fth e s = Some (Inr s')" and "returned_done s"
  shows "returned_done s'"
proof (cases e)
  case SetCancel
  with assms show ?thesis by (auto simp: returned_done_def)
next
  case (Iter i)
  show ?thesis
  proof (cases "i < length (workers s)")
    case False
    with assms Iter show ?thesis by simp
  next
    case True
    with assms Iter have r: "run_iter env max_err progress fth i s = Some (Inr s')" by simp
    note fr = run_iter_frame[OF r]
    show ?thesis unfolding returned_done_def list_ex_length
    proof
      assume "\<exists>j<length (workers s'). status (workers s' ! j) = Finished"
      then obtain j where j: "j < length (workers s)" "status (workers s' ! j) = Finished"
        using fr(3) by auto
      from run_iter_status[OF r True, of j] j
      have "status (workers s ! j) = Finished \<or> done s'" by auto
      then show "done s'"
        using assms(2) j(1) fr(2) by (auto simp: returned_done_def list_ex_length)
    qed
  qed
qed

lemma exec_returned_done:
  assumes "exec env max_err progress fth es s = Some (Inr s')" and "returned_done s"
  shows "returned_done s'"
  using assms
proof (induction es arbitrary: s)
  case Nil
  then show ?case by simp
next
  case (Cons e es)
  from Cons.prems(1) obtain s1 where s1: "step env max_err progress fth e s = Some (Inr s1)"
    and rest: "exec env max_err progress fth es s1 = Some (Inr s')"
    by (rule exec_Cons_Some)
  from Cons.IH[OF rest step_returned_done[OF s1 Cons.prems(2)]] show ?case .
qed

text \<open>Once \<open>done\<close> is set, a pass of each running worker makes it return.\<close>

lemma exec_done_finishes:
  assumes "done s" and "\<forall>j\<in>set js. j < length (workers s)"
  shows "\<exists>s'. exec env max_err progress fth (map Iter js) s = Some (Inr s')
           \<and> done s' \<and> length (workers s') = length (workers s)
           \<and> (\<forall>j<length (workers s). j \<in> set js \<or> status (workers s ! j) = Finished
                 \<longrightarrow> status (workers s' ! j) = Finished)"
  using assms
proof (induction js arbitrary: s)
  case Nil
  then show ?case by simp
next
  case (Cons i js)
  let ?s1 = "if status (workers s ! i) = Finished then s else exit_run i s"
  have i: "i < length (workers s)" using Cons.prems(2) by simp
  have st: "step env max_err progress fth (Iter i) s = Some (Inr ?s1)"
    using i Cons.prems(1) by (simp add: run_iter_stop)
  have d1: "done ?s1" using Cons.prems(1) by (simp add: exit_run_def)
  have l1: "length (workers ?s1) = length (workers s)" by (simp add: exit_run_def)
  have f1: "status (workers ?s1 ! j) = Finished"
    if "j = i \<or> status (workers s ! j) = Finished" for j
    using that i by (auto simp: status_exit_run)
  from Cons.prems(2) l1 have "\<forall>j\<in>set js. j < length (workers ?s1)" by simp
  from Cons.IH[OF d1 this] obtain s' where
    s': "exec env max_err progress fth (map Iter js) ?s1 = Some (Inr s')" "done s'"
      "length (workers s') = length (workers ?s1)"
      "\<forall>j<length (workers ?s1). j \<in> set js \<or> status (workers ?s1 ! j) = Finished
                 \<longrightarrow> status (workers s' ! j) = Finished"
    by blast
  have "exec env max_err progress fth (map Iter (i # js)) s = Some (Inr s')"
    using st s'(1) by simp
  moreover have "status (workers s' ! j) = Finished"
    if "j < length (workers s)" "j \<in> set (i # js) \<or> status (workers s ! j) = Finished" for j
    using that s'(4) l1 f1[of j] by auto
  ultimately show ?case using s'(2,3) l1 by auto
qed


subsection \<open>The cells the \<open>Root\<close> and the pools own\<close>

lemma object_pool_update [simp]:
  "object_pool (ws[i := (ws ! i)\<lparr>local := l\<rparr>] ! j) = object_pool (ws ! j)"
  by (rule nth_update_same_field[where f = object_pool and g = "\<lambda>w. w\<lparr>local := l\<rparr>"]) simp



lemma owned_heap_ticked [simp]: "owned (s\<lparr>heap := h', ticked := tk'\<rparr>) = owned s"
  by (simp add: owned_def)





lemma init_facts:
  "cancel (init env region0 min_feature nworkers cancel0) = cancel0"
  "\<not> done (init env region0 min_feature nworkers cancel0)"
  "ptr (out (init env region0 min_feature nworkers cancel0)) = Some 0"
  "length (workers (init env region0 min_feature nworkers cancel0)) = nworkers"
  "all_owned (init env region0 min_feature nworkers cancel0)"
  "returned_done (init env region0 min_feature nworkers cancel0)"
  by (simp_all add: init_def Let_def all_owned_def owned_def returned_done_def list_ex_iff)

lemma build_Some:
  assumes "build env region0 min_feature max_err nworkers cancel0 progress fth sched
             = Some (Inr b)"
  obtains s where
    "exec env max_err progress fth sched (init env region0 min_feature nworkers cancel0)
       = Some (Inr s)"
    "\<not> list_ex (\<lambda>w. status w = Running) (workers s)"
    "done s \<or> cancel s"
    "b = \<lparr>result = (if cancel s then empty_Root else out s),
          total = build_ticks env region0 min_feature, final = s\<rparr>"
  using assms by (auto simp: build_def split: option.splits sum.splits if_splits)


subsection \<open>Types and ticks\<close>

lemma not_Running [simp]: "(st \<noteq> Running) = (st = Finished)" "(st \<noteq> Finished) = (st = Running)"
  by (cases st; simp)+

lemma map_update_same: "f y = f (xs ! a) \<Longrightarrow> map f (xs[a := y]) = map f xs"
  by (cases "a < length xs") (simp_all add: map_update list_update_same_conv list_update_beyond)


lemma finish_cell_Some:
  assumes "finish_cell env max_err progress i cs t tp r s = Some (Inr s')"
  obtains h' tk' t' tp' r' where
    "collect_loop env i max_err progress (heap s)
       (progress_tick env progress cs r (ticked s)) (parent (heap s ! t))
       (getBase env tp (Region_parent env r (parent_index (heap s ! t))))
       (Region_parent env r (parent_index (heap s ! t))) = Some (h', tk', t', tp', r')"
    and "s' = (if t' = None then exit_run i (s\<lparr>heap := h', ticked := tk'\<rparr>)
               else s\<lparr>heap := h', ticked := tk'\<rparr>)"
  using assms
  by (auto simp: finish_cell_def up_def Let_def split: option.splits prod.splits if_splits)






lemma push_children_collect_indep:
  "push_children (env\<lparr>collectChildren := c\<rparr>) t tp rs nb cap i k st
     = push_children env t tp rs nb cap i k st"
proof (induction k arbitrary: i st)
  case 0
  then show ?case by simp
next
  case (Suc k)
  obtain h ts loc pool where st: "st = (h, ts, loc, pool)" by (cases st) auto
  have "pool_get (env\<lparr>collectChildren := c\<rparr>) h t i (rs ! i) = pool_get env h t i (rs ! i)"
    by (simp add: pool_get_def new_cell_def)
  with Suc show ?case unfolding st push_children_Suc by simp
qed

lemma demo_classify_known: "demo_classify p \<noteq> UNKNOWN"
  by (induction p) simp_all

subsection \<open>The tree is completed\<close>










subsection \<open>The stacks\<close>



subsection \<open>The shape of the tree\<close>


lemma subdivided_data [simp]:
  "subdivided (c\<lparr>data := d\<rparr>) = subdivided c"
  "subdivided (c\<lparr>type := ty\<rparr>) = subdivided c"
  by (simp_all add: subdivided_def)







subsection \<open>The walk up and the counters\<close>




subsection \<open>The children of a subdivided cell\<close>



lemma pending_tasks_simps [simp]:
  "pending_tasks (s\<lparr>heap := h\<rparr>) = pending_tasks s"
  "pending_tasks (s\<lparr>heap := h, ticked := tk\<rparr>) = pending_tasks s"
  "pending_tasks (s\<lparr>cancel := c\<rparr>) = pending_tasks s"
  "pending_tasks (offer_wait fth s) = pending_tasks s"
  by (simp_all add: pending_tasks_def offer_wait_def)

lemma pending_tasks_exit_run [simp]: "pending_tasks (exit_run i s) = pending_tasks s"
proof -
  have "map local ((workers s)[i := (workers s ! i)\<lparr>object_pool := [], status := Finished\<rparr>])
      = map local (workers s)"
    by (rule map_update_same) simp
  then show ?thesis by (simp add: pending_tasks_def exit_run_def)
qed

subsection \<open>A pass keeps the invariant\<close>















subsection \<open>The tree is the expected one\<close>



lemma addrs_Cons [simp]: "addrs (Some t # S) = insert t (addrs S)"
  by (auto simp: addrs_def)










subsection \<open>The environment meets the contracts\<close>





section \<open>The claims\<close>

text \<open>
  C1. The ticks of a completed build against the total it announced, with a progress
  watcher and one worker, in the environment above. A root of level 0 is a leaf:
  one tick of 1, against a total of 8. A root of level 1 with eight leaves: eight
  ticks for the leaves and one for the collection of the root, 9 against 72. A root
  of level 2 with seven empty children and one subdivided into leaves: 514 against
  584. A subdivided cell makes at most \<open>2 ^ N\<close> times the ticks of a child plus one,
  while the loop of the budget gives \<open>2 ^ N\<close> times the amount of a child plus
  \<open>2 ^ N\<close>.
\<close>

theorem ticks_fall_short:
  "emitted_and_total (build demo_env demo_region 0 0 1 False True False [Iter 0]) = Some (1, 8)
   \<and> emitted_and_total (build demo_env demo_region 1 0 1 False True False (replicate 9 (Iter 0)))
       = Some (9, 72)
   \<and> emitted_and_total (build demo_env demo_region 2 0 1 False True False (replicate 24 (Iter 0)))
       = Some (514, 584)"
  by code_simp



text \<open>
  C3, as it is written. The recurrence \<open>t (i + 1) = (t i + 1) * 2 ^ N\<close>, \<open>t 0 = 0\<close>,
  taken at \<open>i = level\<close>, is not the total. For a root of level 0 the total is 8 and
  \<open>t 0 = 0\<close>: the loop makes \<open>level + 1\<close> passes, one more than the index. And the
  term after it, \<open>t (level + 1)\<close>, is not the total at every level either: for a root of
  level 21 it is 84327972908386521672, which \<open>uint64_t\<close> does not hold, and the
  total is 10540996613548315208.
\<close>

theorem total_is_not_the_term_at_level:
  "level (withResolution demo_env demo_region 0) = 0
   \<and> unat (build_ticks demo_env demo_region 0) = 8
   \<and> spec_ticks (N demo_env) (nat (level (withResolution demo_env demo_region 0))) = 0
   \<and> unat (build_ticks demo_env demo_region 0)
        \<noteq> spec_ticks (N demo_env) (nat (level (withResolution demo_env demo_region 0)))
   \<and> level (withResolution demo_env demo_region 21) = 21
   \<and> unat (build_ticks demo_env demo_region 21) = 10540996613548315208
   \<and> spec_ticks (N demo_env) (Suc (nat (level (withResolution demo_env demo_region 21))))
        = 84327972908386521672
   \<and> unat (build_ticks demo_env demo_region 21)
        \<noteq> spec_ticks (N demo_env) (Suc (nat (level (withResolution demo_env demo_region 21))))"
proof -
  have l: "level (withResolution demo_env demo_region 0) = 0"
    "level (withResolution demo_env demo_region 21) = 21" "N demo_env = 3"
    by (simp_all add: demo_env_def)
  have "build_ticks demo_env demo_region 0 = 8" by code_simp
  then have a: "unat (build_ticks demo_env demo_region 0) = 8" by simp
  have b: "unat (build_ticks demo_env demo_region 21) = 10540996613548315208"
    using budget_wraps_at_level_21 l by (simp add: build_ticks_def region_ticks_def)
  have c: "spec_ticks 3 (Suc 21) = 84327972908386521672"
    using budget_wraps_at_level_21 by simp
  from l a b c show ?thesis by simp
qed

text \<open>
  C3, as it holds. The total that \<open>build\<close> computes before it starts the workers is
  the term of index \<open>level + 1\<close> of the recurrence \<open>t (i + 1) = (t i + 1) * 2 ^ N\<close>,
  \<open>t 0 = 0\<close>, where \<open>level\<close> is the level of the root region after \<open>withResolution\<close>,
  computed in \<open>uint64_t\<close>, that is modulo \<open>2 ^ 64\<close>; for a negative level it is
  \<open>t 0 = 0\<close>. For \<open>N = 3\<close> and a level of at most 20 nothing wraps, and the total is the
  term itself.
\<close>

theorem build_ticks_recurrence:
  "build_ticks env region0 min_feature =
     of_nat (spec_ticks (N env) (nat (level (withResolution env region0 min_feature) + 1)))
   \<and> unat (build_ticks env region0 min_feature) =
       spec_ticks (N env) (nat (level (withResolution env region0 min_feature) + 1)) mod 2 ^ 64
   \<and> (N env = 3 \<and> level (withResolution env region0 min_feature) \<le> 20
        \<longrightarrow> unat (build_ticks env region0 min_feature) =
            spec_ticks 3 (nat (level (withResolution env region0 min_feature) + 1)))"
proof -
  let ?l = "nat (level (withResolution env region0 min_feature) + 1)"
  have eq: "build_ticks env region0 min_feature = of_nat (spec_ticks (N env) ?l)"
    by (simp add: build_ticks_def region_ticks_all_levels)
  have md: "unat (build_ticks env region0 min_feature) = spec_ticks (N env) ?l mod 2 ^ 64"
    unfolding eq unat_of_nat by simp
  have "spec_ticks 3 ?l < 2 ^ 64"
    if "level (withResolution env region0 min_feature) \<le> 20"
  proof -
    from that have "?l \<le> 21" by simp
    from spec_ticks_mono'[OF this, of 3] spec_ticks_3_21 show ?thesis by simp
  qed
  with eq md show ?thesis by auto
qed

theorem build_ticks_recurrence_witness:
  "N demo_env = 3 \<and> level (withResolution demo_env demo_region 2) \<le> 20
   \<and> nat (level (withResolution demo_env demo_region 2) + 1) = 3
   \<and> build_ticks demo_env demo_region 2 = 584
   \<and> spec_ticks 3 3 = 584
   \<and> unat (build_ticks demo_env demo_region 2) = spec_ticks 3 3"
proof -
  have l: "level (withResolution demo_env demo_region 2) = 2" "N demo_env = 3"
    by (simp_all add: demo_env_def)
  have s: "spec_ticks 3 3 = 584" by (simp add: spec_ticks_numeral)
  from build_ticks_recurrence[of demo_env demo_region 2] l s show ?thesis
    by simp
qed



text \<open>
  C9. Whenever a pass of \<open>run\<close> makes a worker return, \<open>done\<close> is set in the state
  it leaves, whatever ended the loop. From then on the test of the loop fails for
  every worker: its next pass returns, and one pass of each worker ends them all.
  In every state of a build, a worker has returned only if \<open>done\<close> is set.
\<close>

theorem run_stores_done:
  assumes "run_iter env max_err progress fth i s = Some (Inr s')"
    and "i < length (workers s)"
    and "status (workers s ! i) = Running"
    and "status (workers s' ! i) = Finished"
  shows "done s'
     \<and> (\<forall>j<length (workers s'). \<exists>s2.
           run_iter env max_err progress fth j s' = Some (Inr s2)
           \<and> status (workers s2 ! j) = Finished \<and> done s2)
     \<and> (\<exists>s3. exec env max_err progress fth (map Iter [0 ..< length (workers s')]) s'
                 = Some (Inr s3)
           \<and> done s3 \<and> \<not> list_ex (\<lambda>w. status w = Running) (workers s3))
     \<and> (\<forall>sched region0 min_feature nworkers cancel0 s0.
           exec env max_err progress fth sched (init env region0 min_feature nworkers cancel0)
             = Some (Inr s0)
           \<longrightarrow> list_ex (\<lambda>w. status w = Finished) (workers s0) \<longrightarrow> done s0)"
proof -
  have inv: "done s0"
    if "exec env max_err progress fth sched (init env region0 min_feature nworkers cancel0)
             = Some (Inr s0)" "list_ex (\<lambda>w. status w = Finished) (workers s0)"
    for sched region0 min_feature nworkers cancel0 s0
    using exec_returned_done[OF that(1) init_facts(6)] that(2) by (simp add: returned_done_def)
  from run_iter_status[OF assms(1,2), of i] assms(3,4) have d: "done s'" by simp
  have each: "\<exists>s2. run_iter env max_err progress fth j s' = Some (Inr s2)
           \<and> status (workers s2 ! j) = Finished \<and> done s2" if "j < length (workers s')" for j
    using that d by (auto simp: run_iter_stop status_exit_run exit_run_def)
  from exec_done_finishes[OF d, of "[0 ..< length (workers s')]" env max_err progress fth]
  obtain s3 where s3: "exec env max_err progress fth (map Iter [0 ..< length (workers s')]) s'
       = Some (Inr s3)" "done s3" "length (workers s3) = length (workers s')"
      "\<forall>j<length (workers s'). status (workers s3 ! j) = Finished"
    by auto
  then have "\<not> list_ex (\<lambda>w. status w = Running) (workers s3)"
    by (auto simp: list_ex_length)
  with d each s3 inv show ?thesis by blast
qed

theorem run_stores_done_witness:
  "\<exists>s'. run_iter demo_env 0 True False 0 (init demo_env demo_region 0 2 False) = Some (Inr s')
     \<and> status (workers (init demo_env demo_region 0 2 False) ! 0) = Running
     \<and> status (workers s' ! 0) = Finished
     \<and> done s'
     \<and> (\<exists>s3. exec demo_env 0 True False (map Iter [0 ..< length (workers s')]) s'
                 = Some (Inr s3)
           \<and> done s3 \<and> \<not> list_ex (\<lambda>w. status w = Running) (workers s3))"
proof -
  have "case run_iter demo_env 0 True False 0 (init demo_env demo_region 0 2 False) of
          Some (Inr s') \<Rightarrow> status (workers s' ! 0) = Finished
        | _ \<Rightarrow> False"
    by code_simp
  then obtain s' where
    r: "run_iter demo_env 0 True False 0 (init demo_env demo_region 0 2 False) = Some (Inr s')"
    and f: "status (workers s' ! 0) = Finished"
    by (auto split: option.splits sum.splits)
  have l: "0 < length (workers (init demo_env demo_region 0 2 False))"
    and u: "status (workers (init demo_env demo_region 0 2 False) ! 0) = Running"
    by (simp_all add: init_def Let_def)
  from run_stores_done[OF r l u f] r u f show ?thesis by blast
qed

text \<open>
  C10. The overload that takes the expression makes its own \<open>cancel\<close>, initially
  false, and hands it to nobody who sets it: in every state its workers reach
  \<open>cancel\<close> is false, and when it returns it returns \<open>out\<close>, which points to the
  root cell, never the empty \<open>Root\<close>.
\<close>

theorem build_tree_never_cancelled:
  "(\<forall>s. exec env max_err progress fth (map Iter sched)
            (init env region0 min_feature nworkers False) = Some (Inr s)
         \<longrightarrow> \<not> cancel s)
   \<and> (\<forall>b. build_tree env region0 min_feature max_err nworkers progress fth sched = Some (Inr b)
         \<longrightarrow> \<not> cancel (final b) \<and> result b = out (final b) \<and> ptr (result b) = Some 0
             \<and> result b \<noteq> empty_Root)"
proof -
  have nc: "\<not> cancel s"
    if "exec env max_err progress fth (map Iter sched)
            (init env region0 min_feature nworkers False) = Some (Inr s)" for s
    using exec_frame[OF that] by (auto simp: init_facts)
  have "\<not> cancel (final b) \<and> result b = out (final b) \<and> ptr (result b) = Some 0
             \<and> result b \<noteq> empty_Root"
    if "build_tree env region0 min_feature max_err nworkers progress fth sched = Some (Inr b)"
    for b
  proof -
    from that[unfolded build_tree_def] obtain s where
      e: "exec env max_err progress fth (map Iter sched)
            (init env region0 min_feature nworkers False) = Some (Inr s)"
      and b: "b = \<lparr>result = (if cancel s then empty_Root else out s),
          total = build_ticks env region0 min_feature, final = s\<rparr>"
      by (rule build_Some)
    from exec_frame[OF e] have "ptr (out s) = Some 0" by (simp add: init_facts)
    with nc[OF e] b show ?thesis by (auto simp: empty_Root_def)
  qed
  with nc show ?thesis by blast
qed

theorem build_tree_never_cancelled_witness:
  "\<exists>s b. exec demo_env 0 True False (map Iter [0])
            (init demo_env demo_region 0 1 False) = Some (Inr s)
      \<and> \<not> cancel s
      \<and> build_tree demo_env demo_region 0 0 1 True False [0] = Some (Inr b)
      \<and> \<not> cancel (final b) \<and> result b = out (final b) \<and> ptr (result b) = Some 0
      \<and> result b \<noteq> empty_Root"
proof -
  have "case exec demo_env 0 True False (map Iter [0])
            (init demo_env demo_region 0 1 False) of Some (Inr s) \<Rightarrow> True | _ \<Rightarrow> False"
    by code_simp
  then obtain s where e: "exec demo_env 0 True False (map Iter [0])
            (init demo_env demo_region 0 1 False) = Some (Inr s)"
    by (auto split: option.splits sum.splits)
  have "case build_tree demo_env demo_region 0 0 1 True False [0] of
          Some (Inr b) \<Rightarrow> True | _ \<Rightarrow> False"
    by code_simp
  then obtain b where b: "build_tree demo_env demo_region 0 0 1 True False [0] = Some (Inr b)"
    by (auto split: option.splits sum.splits)
  from build_tree_never_cancelled[of demo_env 0 True False "[0]" demo_region 0 1] e b
  show ?thesis by blast
qed

text \<open>
  C4. For a task whose region has a level above 0 and whose interval evaluation
  classifies the cell \<open>AMBIGUOUS\<close>, the pass allocates exactly \<open>2 ^ N\<close> children
  (eight for \<open>N = 3\<close>) from the pool of the worker, after the cells that exist and
  without touching any other cell, and pushes one task per child, with the tape
  \<open>evalInterval\<close> returned, the child's region of \<open>subdivide\<close> and the neighbours
  computed for the cell: to the shared stack while it has room, to the local stack
  of the worker after that. It makes no tick, sets no flag, leaves the worker
  running, and does not depend on \<open>collectChildren\<close>.
\<close>

theorem ambiguous_pushes_children:
  assumes "0 < level (region task)"
    and "evalInterval env i (heap s ! t) (tape task) (region task) = (AMBIGUOUS, d, tp)"
    and "t < length (heap s)" and "i < length (workers s)"
  shows "\<exists>s'. run_task env max_err progress i task t s = Some (Inr s')
      \<and> length (heap s') = length (heap s) + 2 ^ N env
      \<and> (N env = 3 \<longrightarrow> length (heap s') = length (heap s) + 8)
      \<and> (\<forall>j<2 ^ N env. heap s' ! (length (heap s) + j)
             = new_cell env (Some t) j (subdivide env (region task) ! j))
      \<and> (\<forall>a<length (heap s). a \<noteq> t \<longrightarrow> heap s' ! a = heap s ! a)
      \<and> type (heap s' ! t) = AMBIGUOUS
      \<and> tasks s' = rev (take (tasks_capacity s - length (tasks s))
            (map (\<lambda>j. \<lparr>target = Some (length (heap s) + j), tape = tp,
                       region = subdivide env (region task) ! j,
                       parent_neighbors = find_neighbors env (heap s) t (parent_neighbors task)\<rparr>)
               [0 ..< 2 ^ N env])) @ tasks s
      \<and> local (workers s' ! i) = rev (drop (tasks_capacity s - length (tasks s))
            (map (\<lambda>j. \<lparr>target = Some (length (heap s) + j), tape = tp,
                       region = subdivide env (region task) ! j,
                       parent_neighbors = find_neighbors env (heap s) t (parent_neighbors task)\<rparr>)
               [0 ..< 2 ^ N env])) @ local (workers s ! i)
      \<and> object_pool (workers s' ! i)
          = object_pool (workers s ! i) @ [length (heap s) ..< length (heap s) + 2 ^ N env]
      \<and> status (workers s' ! i) = status (workers s ! i)
      \<and> ticked s' = ticked s \<and> done s' = done s \<and> cancel s' = cancel s
      \<and> (\<forall>c. run_task (env\<lparr>collectChildren := c\<rparr>) max_err progress i task t s
             = Some (Inr s'))"
proof -
  let ?h1 = "(heap s)[t := (heap s ! t)\<lparr>type := AMBIGUOUS, data := d\<rparr>]"
  let ?nb = "find_neighbors env (heap s) t (parent_neighbors task)"
  let ?rs = "subdivide env (region task)"
  obtain h' ts' loc' pool' where p:
    "push_children env t tp ?rs ?nb (tasks_capacity s) 0 (2 ^ N env)
        (?h1, tasks s, local (workers s ! i), object_pool (workers s ! i))
      = (h', ts', loc', pool')"
    using prod_cases4 by blast
  let ?s' = "s\<lparr>heap := h', tasks := ts',
           workers := (workers s)[i := (workers s ! i)
             \<lparr>local := loc', object_pool := pool'\<rparr>]\<rparr>"
  have run: "run_task env max_err progress i task t s = Some (Inr ?s')"
    unfolding run_task_ambiguous[OF assms(1,2)] p by simp
  have t1: "t < length ?h1" using assms(3) by simp
  have len: "length h' = length (heap s) + 2 ^ N env"
    using push_children_length[OF p] by simp
  have new: "h' ! (length (heap s) + j) = new_cell env (Some t) j (?rs ! j)"
    if "j < 2 ^ N env" for j
    using push_children_new_cells[OF p that t1] by simp
  have old: "h' ! a = heap s ! a" if "a < length (heap s)" "a \<noteq> t" for a
    using push_children_old_cells[OF p, of a] that by simp
  have "h' ! t = (?h1 ! t)\<lparr>children := children (h' ! t)\<rparr>"
    using push_children_target[OF p t1] by blast
  then have "type (h' ! t) = type (?h1 ! t)"
    by (metis Cell.select_convs(4) Cell.surjective Cell.update_convs(5))
  then have ty: "type (h' ! t) = AMBIGUOUS" using assms(3) by simp
  note tl = push_children_tasks[OF p]
  have pool: "pool' = object_pool (workers s ! i)
      @ [length (heap s) ..< length (heap s) + 2 ^ N env]"
    using push_children_pool[OF p] by simp
  have indep: "run_task (env\<lparr>collectChildren := c\<rparr>) max_err progress i task t s
      = Some (Inr ?s')" for c
  proof -
    have e: "evalInterval (env\<lparr>collectChildren := c\<rparr>) i (heap s ! t) (tape task)
        (region task) = (AMBIGUOUS, d, tp)"
      using assms(2) by simp
    have "subdivide (env\<lparr>collectChildren := c\<rparr>) (region task) = ?rs"
      "find_neighbors (env\<lparr>collectChildren := c\<rparr>) (heap s) t (parent_neighbors task) = ?nb"
      by (simp_all add: subdivide_def find_neighbors_def split: option.splits)
    then show ?thesis
      unfolding run_task_ambiguous[OF assms(1) e] using p
      by (simp add: push_children_collect_indep)
  qed
  show ?thesis
    apply (rule exI[of _ ?s'])
    using run len new old ty tl pool indep assms(4)
    by simp
qed

theorem ambiguous_pushes_children_witness:
  "0 < level (region (demo_root_task 1))
   \<and> evalInterval demo_env 0 (heap (demo_popped 1) ! 0) (tape (demo_root_task 1))
        (region (demo_root_task 1)) = (AMBIGUOUS, 8, 1)
   \<and> (\<exists>s'. run_task demo_env 0 True 0 (demo_root_task 1) 0 (demo_popped 1) = Some (Inr s')
        \<and> length (heap s') = 9 \<and> type (heap s' ! 0) = AMBIGUOUS
        \<and> length (tasks s') = 1 \<and> length (local (workers s' ! 0)) = 7
        \<and> length (object_pool (workers s' ! 0)) = 8
        \<and> ticked s' = [] \<and> \<not> done s' \<and> status (workers s' ! 0) = Running)"
proof -
  have h1: "0 < level (region (demo_root_task 1))" by (simp add: demo_root_task_def)
  have h2: "evalInterval demo_env 0 (heap (demo_popped 1) ! 0) (tape (demo_root_task 1))
        (region (demo_root_task 1)) = (AMBIGUOUS, 8, 1)"
    by code_simp
  have h3: "0 < length (heap (demo_popped 1))" "0 < length (workers (demo_popped 1))"
    by (simp_all add: demo_popped_def init_def Let_def)
  have f: "N demo_env = 3" "tasks (demo_popped 1) = []" "tasks_capacity (demo_popped 1) = 1"
    "length (heap (demo_popped 1)) = 1" "ticked (demo_popped 1) = []"
    "done (demo_popped 1) = False" "status (workers (demo_popped 1) ! 0) = Running"
    "local (workers (demo_popped 1) ! 0) = []" "object_pool (workers (demo_popped 1) ! 0) = []"
    by (simp_all add: demo_popped_def init_def Let_def demo_env_def)
  from ambiguous_pushes_children[OF h1 h2 h3, of 0 True]
  obtain s' where r: "run_task demo_env 0 True 0 (demo_root_task 1) 0 (demo_popped 1) = Some (Inr s')"
    and a: "N demo_env = 3 \<longrightarrow> length (heap s') = length (heap (demo_popped 1)) + 8"
      "type (heap s' ! 0) = AMBIGUOUS"
    and b: "tasks s' = rev (take (tasks_capacity (demo_popped 1) - length (tasks (demo_popped 1)))
            (map (\<lambda>j. \<lparr>target = Some (length (heap (demo_popped 1)) + j), tape = 1,
                       region = subdivide demo_env (region (demo_root_task 1)) ! j,
                       parent_neighbors = find_neighbors demo_env (heap (demo_popped 1)) 0
                         (parent_neighbors (demo_root_task 1))\<rparr>)
               [0 ..< 2 ^ N demo_env])) @ tasks (demo_popped 1)"
    and c: "local (workers s' ! 0) = rev (drop (tasks_capacity (demo_popped 1)
              - length (tasks (demo_popped 1)))
            (map (\<lambda>j. \<lparr>target = Some (length (heap (demo_popped 1)) + j), tape = 1,
                       region = subdivide demo_env (region (demo_root_task 1)) ! j,
                       parent_neighbors = find_neighbors demo_env (heap (demo_popped 1)) 0
                         (parent_neighbors (demo_root_task 1))\<rparr>)
               [0 ..< 2 ^ N demo_env])) @ local (workers (demo_popped 1) ! 0)"
    and d: "object_pool (workers s' ! 0) = object_pool (workers (demo_popped 1) ! 0)
          @ [length (heap (demo_popped 1)) ..< length (heap (demo_popped 1)) + 2 ^ N demo_env]"
      "status (workers s' ! 0) = status (workers (demo_popped 1) ! 0)"
      "ticked s' = ticked (demo_popped 1)" "done s' = done (demo_popped 1)"
    by blast
  have "length (heap s') = 9" using a(1) f by simp
  moreover have "length (tasks s') = 1" unfolding b f by simp
  moreover have "length (local (workers s' ! 0)) = 7" unfolding c f by simp
  moreover have "length (object_pool (workers s' ! 0)) = 8" unfolding d f by simp
  ultimately show ?thesis using h1 h2 r a(2) d(2-) f by auto
qed




text \<open>
  C6. \<open>up\<close> replaces the region by its parent for \<open>parent_index\<close>, the tape by
  \<open>getBase\<close> of the tape and that region, and the cell by its parent. The walk
  stops at once on the null pointer; on a cell whose \<open>collectChildren\<close> returns false
  it stops there without a tick; on a cell whose \<open>collectChildren\<close> returns true it
  makes exactly one tick (when there is a watcher), goes \<open>up\<close> and continues. After
  the evaluation of a cell the ticks of the pass are the tick of the cell and then
  ticks of 1; when the walk ends on the null pointer the worker sets \<open>done\<close> and
  returns, and otherwise it stays in its loop.
\<close>

theorem bubble_up:
  "up env h a tp r =
     (parent (h ! a), getBase env tp (Region_parent env r (parent_index (h ! a))),
      Region_parent env r (parent_index (h ! a)))
   \<and> collect_loop env i max_err progress h tk None tp r = Some (h, tk, None, tp, r)
   \<and> (collectChildren env i h a tp r max_err = (False, d) \<longrightarrow>
        collect_loop env i max_err progress h tk (Some a) tp r
          = Some (h[a := (h ! a)\<lparr>data := d\<rparr>], tk, Some a, tp, r))
   \<and> (collectChildren env i h2 a2 tp r max_err = (True, d2) \<longrightarrow>
        collect_loop env i max_err progress h2 tk (Some a2) tp r
          = collect_loop env i max_err progress (h2[a2 := (h2 ! a2)\<lparr>data := d2\<rparr>])
              (if progress then tk @ [1] else tk)
              (parent (h2 ! a2))
              (getBase env tp (Region_parent env r (parent_index (h2 ! a2))))
              (Region_parent env r (parent_index (h2 ! a2))))
   \<and> (finish_cell env max_err progress i cs t tp r s = Some (Inr s') \<longrightarrow>
        (\<exists>h' tk' t' tp' r'.
           collect_loop env i max_err progress (heap s)
             (progress_tick env progress cs r (ticked s)) (parent (heap s ! t))
             (getBase env tp (Region_parent env r (parent_index (heap s ! t))))
             (Region_parent env r (parent_index (heap s ! t))) = Some (h', tk', t', tp', r')
         \<and> (\<exists>k. tk' = progress_tick env progress cs r (ticked s)
                     @ (if progress then replicate k 1 else []))
         \<and> (t' = None \<longrightarrow> s' = exit_run i (s\<lparr>heap := h', ticked := tk'\<rparr>) \<and> done s'
               \<and> (i < length (workers s) \<longrightarrow> status (workers s' ! i) = Finished))
         \<and> (t' \<noteq> None \<longrightarrow> s' = s\<lparr>heap := h', ticked := tk'\<rparr>)))"
proof -
  have 1: "up env h a tp r =
     (parent (h ! a), getBase env tp (Region_parent env r (parent_index (h ! a))),
      Region_parent env r (parent_index (h ! a)))"
    by (simp add: up_def Let_def)
  have 2: "collect_loop env i max_err progress h tk None tp r = Some (h, tk, None, tp, r)"
    by (subst collect_loop.simps) simp
  have 3: "collect_loop env i max_err progress h tk (Some a) tp r
          = Some (h[a := (h ! a)\<lparr>data := d\<rparr>], tk, Some a, tp, r)"
    if "collectChildren env i h a tp r max_err = (False, d)"
    using that by (subst collect_loop.simps) simp
  have par: "parent (h2[a2 := (h2 ! a2)\<lparr>data := d2\<rparr>] ! a2) = parent (h2 ! a2)"
    "parent_index (h2[a2 := (h2 ! a2)\<lparr>data := d2\<rparr>] ! a2) = parent_index (h2 ! a2)"
    by (rule nth_update_same_field[where g = "\<lambda>c. c\<lparr>data := d2\<rparr>"], simp)+
  have 4: "collect_loop env i max_err progress h2 tk (Some a2) tp r
          = collect_loop env i max_err progress (h2[a2 := (h2 ! a2)\<lparr>data := d2\<rparr>])
              (if progress then tk @ [1] else tk)
              (parent (h2 ! a2))
              (getBase env tp (Region_parent env r (parent_index (h2 ! a2))))
              (Region_parent env r (parent_index (h2 ! a2)))"
    if "collectChildren env i h2 a2 tp r max_err = (True, d2)"
    using that par by (subst collect_loop.simps) (simp add: up_def Let_def)
  have 5: "\<exists>h' tk' t' tp' r'.
           collect_loop env i max_err progress (heap s)
             (progress_tick env progress cs r (ticked s)) (parent (heap s ! t))
             (getBase env tp (Region_parent env r (parent_index (heap s ! t))))
             (Region_parent env r (parent_index (heap s ! t))) = Some (h', tk', t', tp', r')
         \<and> (\<exists>k. tk' = progress_tick env progress cs r (ticked s)
                     @ (if progress then replicate k 1 else []))
         \<and> (t' = None \<longrightarrow> s' = exit_run i (s\<lparr>heap := h', ticked := tk'\<rparr>) \<and> done s'
               \<and> (i < length (workers s) \<longrightarrow> status (workers s' ! i) = Finished))
         \<and> (t' \<noteq> None \<longrightarrow> s' = s\<lparr>heap := h', ticked := tk'\<rparr>)"
    if f: "finish_cell env max_err progress i cs t tp r s = Some (Inr s')"
  proof -
    from f obtain h' tk' t' tp' r' where
      c: "collect_loop env i max_err progress (heap s)
       (progress_tick env progress cs r (ticked s)) (parent (heap s ! t))
       (getBase env tp (Region_parent env r (parent_index (heap s ! t))))
       (Region_parent env r (parent_index (heap s ! t))) = Some (h', tk', t', tp', r')"
      and s': "s' = (if t' = None then exit_run i (s\<lparr>heap := h', ticked := tk'\<rparr>)
               else s\<lparr>heap := h', ticked := tk'\<rparr>)"
      by (rule finish_cell_Some)
    have "t' = None \<longrightarrow> done s'
        \<and> (i < length (workers s) \<longrightarrow> status (workers s' ! i) = Finished)"
      using s' by (simp add: status_exit_run) (simp add: exit_run_def)
    with c s' collect_loop_ticks[OF c] show ?thesis by auto
  qed
  from 1 2 3 4 5 show ?thesis by blast
qed

theorem bubble_up_witness:
  "collectChildren demo_env 0 [new_cell demo_env None 0 demo_region] 0 0 demo_region 0 = (False, 7)
   \<and> collect_loop demo_env 0 0 True [new_cell demo_env None 0 demo_region] [] (Some 0) 0 demo_region
       = Some ([(new_cell demo_env None 0 demo_region)\<lparr>data := 7\<rparr>], [], Some 0, 0, demo_region)
   \<and> collectChildren demo_env 0 [(new_cell demo_env None 0 demo_region)\<lparr>data := 1\<rparr>] 0 0
        demo_region 0 = (True, 0)
   \<and> collect_loop demo_env 0 0 True [(new_cell demo_env None 0 demo_region)\<lparr>data := 1\<rparr>] []
        (Some 0) 0 demo_region
       = Some ([(new_cell demo_env None 0 demo_region)\<lparr>data := 0\<rparr>], [1], None, 0,
               \<lparr>level = 1, bounds = []\<rparr>)
   \<and> (\<exists>s'. finish_cell demo_env 0 True 0 False 0 0 demo_region (demo_popped 0) = Some (Inr s')
         \<and> done s' \<and> status (workers s' ! 0) = Finished \<and> ticked s' = [1])"
proof -
  let ?c = "new_cell demo_env None 0 demo_region"
  have c1: "collectChildren demo_env 0 [?c] 0 0 demo_region 0 = (False, 7)"
    by (simp add: demo_env_def new_cell_def)
  have c2: "collectChildren demo_env 0 [?c\<lparr>data := 1\<rparr>] 0 0 demo_region 0 = (True, 0)"
    by (simp add: demo_env_def new_cell_def)
  have "case finish_cell demo_env 0 True 0 False 0 0 demo_region (demo_popped 0) of
          Some (Inr s') \<Rightarrow> ticked s' = [1] | _ \<Rightarrow> False"
    by code_simp
  then obtain s' where
    f: "finish_cell demo_env 0 True 0 False 0 0 demo_region (demo_popped 0) = Some (Inr s')"
    and t: "ticked s' = [1]"
    by (auto split: option.splits sum.splits)
  note b = bubble_up[of demo_env "[?c]" 0 0 demo_region 0 0 True "[]" 7
      "[?c\<lparr>data := 1\<rparr>]" 0 0 False 0 "demo_popped 0" s']
  from b c1 have l1: "collect_loop demo_env 0 0 True [?c] [] (Some 0) 0 demo_region
       = Some ([?c\<lparr>data := 7\<rparr>], [], Some 0, 0, demo_region)"
    by simp
  have pr: "parent ?c = None" "parent_index ?c = 0"
    "\<And>tp r. getBase demo_env tp r = 0"
    "Region_parent demo_env demo_region 0 = \<lparr>level = 1, bounds = []\<rparr>"
    by (simp_all add: new_cell_def demo_env_def demo_region_def Region_parent_def)
  from b c2 have "collect_loop demo_env 0 0 True [?c\<lparr>data := 1\<rparr>] [] (Some 0) 0 demo_region
      = collect_loop demo_env 0 0 True [?c\<lparr>data := 0\<rparr>] [1] None 0 \<lparr>level = 1, bounds = []\<rparr>"
    by (simp add: pr)
  also have "\<dots> = Some ([?c\<lparr>data := 0\<rparr>], [1], None, 0, \<lparr>level = 1, bounds = []\<rparr>)"
    by (subst collect_loop.simps) simp
  finally have l2: "collect_loop demo_env 0 0 True [?c\<lparr>data := 1\<rparr>] [] (Some 0) 0 demo_region
       = Some ([?c\<lparr>data := 0\<rparr>], [1], None, 0, \<lparr>level = 1, bounds = []\<rparr>)" .
  have w: "0 < length (workers (demo_popped 0))"
    by (simp add: demo_popped_def init_def Let_def)
  have p: "parent (heap (demo_popped 0) ! 0) = None"
    by (simp add: demo_popped_def init_def Let_def new_cell_def)
  from b f obtain h' tk' t' tp' r' where
    cl: "collect_loop demo_env 0 0 True (heap (demo_popped 0))
       (progress_tick demo_env True False demo_region (ticked (demo_popped 0)))
       (parent (heap (demo_popped 0) ! 0))
       (getBase demo_env 0 (Region_parent demo_env demo_region
          (parent_index (heap (demo_popped 0) ! 0))))
       (Region_parent demo_env demo_region (parent_index (heap (demo_popped 0) ! 0)))
       = Some (h', tk', t', tp', r')"
    and x: "t' = None \<longrightarrow> s' = exit_run 0 ((demo_popped 0)\<lparr>heap := h', ticked := tk'\<rparr>) \<and> done s'
               \<and> (0 < length (workers (demo_popped 0)) \<longrightarrow> status (workers s' ! 0) = Finished)"
    by blast
  from cl have "t' = None" unfolding p by (subst (asm) collect_loop.simps) simp
  with x w have "done s'" "status (workers s' ! 0) = Finished" by blast+
  with c1 c2 l1 l2 f t show ?thesis by blast
qed



end
